theory Spec2Isabelle
  imports Complex_Main
begin

section \<open>IEEE 754 binary64 values and arithmetic\<close>

text \<open>
  The program computes with C \<^verbatim>\<open>double\<close>. A value is a NaN, a signed infinity, or a finite
  number \<open>Fin s m e\<close> that stands for \<open>(-1)^s * m * 2^e\<close>. The doubles are the finite values
  in canonical form (\<open>is_double\<close>): a 53-bit mantissa with exponent between -1074 and 971,
  or a subnormal mantissa below \<open>2^52\<close> with exponent -1074. Every operation rounds the exact
  result to the nearest double, ties to even, as the default rounding mode does.
\<close>

datatype double = NaN | Inf bool | Fin bool int int

definition is_double :: "double \<Rightarrow> bool" where
  "is_double x =
     (case x of
        Fin s m e \<Rightarrow> (0 \<le> m \<and> m < 2 ^ 52 \<and> e = - 1074) \<or>
                     (2 ^ 52 \<le> m \<and> m < 2 ^ 53 \<and> - 1074 \<le> e \<and> e \<le> 971)
      | _ \<Rightarrow> True)"

definition is_finite :: "double \<Rightarrow> bool" where
  "is_finite x = (case x of Fin s m e \<Rightarrow> True | _ \<Rightarrow> False)"

definition is_nan :: "double \<Rightarrow> bool" where
  "is_nan x = (case x of NaN \<Rightarrow> True | _ \<Rightarrow> False)"

definition valof :: "double \<Rightarrow> real" where
  "valof x = (case x of Fin s m e \<Rightarrow> (if s then - 1 else 1) * real_of_int m * 2 powi e | _ \<Rightarrow> 0)"

fun bitlen :: "int \<Rightarrow> nat" where
  "bitlen n = (if n \<le> 0 then 0 else Suc (bitlen (n div 2)))"

declare bitlen.simps [simp del]

definition round_half_even :: "int \<Rightarrow> nat \<Rightarrow> int" where
  "round_half_even n k =
     (let q = n div 2 ^ k; r = n mod 2 ^ k
      in if 2 * r < 2 ^ k then q
         else if 2 ^ k < 2 * r then q + 1
         else if even q then q else q + 1)"

text \<open>\<open>round_dyadic s n q\<close> is the double nearest to \<open>(-1)^s * n * 2^q\<close> for \<open>n \<ge> 0\<close>.\<close>

definition round_dyadic :: "bool \<Rightarrow> int \<Rightarrow> int \<Rightarrow> double" where
  "round_dyadic s n q =
     (if n \<le> 0 then Fin s 0 (- 1074)
      else
        let ex = int (bitlen n) - 1 + q;
            qt = max (ex - 52) (- 1074);
            m = (if qt \<le> q then n * 2 ^ nat (q - qt) else round_half_even n (nat (qt - q)))
        in if m = 2 ^ 53 then (if 971 < qt + 1 then Inf s else Fin s (2 ^ 52) (qt + 1))
           else if 971 < qt then Inf s
           else Fin s m qt)"

definition signed :: "bool \<Rightarrow> int \<Rightarrow> int" where
  "signed s m = (if s then - m else m)"

definition dneg :: "double \<Rightarrow> double" where
  "dneg x = (case x of NaN \<Rightarrow> NaN | Inf s \<Rightarrow> Inf (\<not> s) | Fin s m e \<Rightarrow> Fin (\<not> s) m e)"

definition dadd :: "double \<Rightarrow> double \<Rightarrow> double" where
  "dadd x y =
     (case (x, y) of
        (NaN, _) \<Rightarrow> NaN
      | (_, NaN) \<Rightarrow> NaN
      | (Inf s, Inf s') \<Rightarrow> (if s = s' then Inf s else NaN)
      | (Inf s, Fin _ _ _) \<Rightarrow> Inf s
      | (Fin _ _ _, Inf s') \<Rightarrow> Inf s'
      | (Fin s m e, Fin s' m' e') \<Rightarrow>
          (let e0 = min e e';
               c = signed s m * 2 ^ nat (e - e0) + signed s' m' * 2 ^ nat (e' - e0)
           in if c = 0 then Fin (s \<and> s') 0 (- 1074)
              else round_dyadic (c < 0) \<bar>c\<bar> e0))"

definition dsub :: "double \<Rightarrow> double \<Rightarrow> double" where
  "dsub x y = dadd x (dneg y)"

definition dmul :: "double \<Rightarrow> double \<Rightarrow> double" where
  "dmul x y =
     (case (x, y) of
        (NaN, _) \<Rightarrow> NaN
      | (_, NaN) \<Rightarrow> NaN
      | (Inf s, Inf s') \<Rightarrow> Inf (s \<noteq> s')
      | (Inf s, Fin s' m' e') \<Rightarrow> (if m' = 0 then NaN else Inf (s \<noteq> s'))
      | (Fin s m e, Inf s') \<Rightarrow> (if m = 0 then NaN else Inf (s \<noteq> s'))
      | (Fin s m e, Fin s' m' e') \<Rightarrow> round_dyadic (s \<noteq> s') (m * m') (e + e'))"

text \<open>
  Division computes at least 55 bits of the quotient and folds the remainder into a
  sticky last bit, so that rounding the dyadic value equals rounding the exact quotient.
\<close>

definition ddiv :: "double \<Rightarrow> double \<Rightarrow> double" where
  "ddiv x y =
     (case (x, y) of
        (NaN, _) \<Rightarrow> NaN
      | (_, NaN) \<Rightarrow> NaN
      | (Inf s, Inf s') \<Rightarrow> NaN
      | (Inf s, Fin s' m' e') \<Rightarrow> Inf (s \<noteq> s')
      | (Fin s m e, Inf s') \<Rightarrow> Fin (s \<noteq> s') 0 (- 1074)
      | (Fin s m e, Fin s' m' e') \<Rightarrow>
          (if m' = 0 then (if m = 0 then NaN else Inf (s \<noteq> s'))
           else
             let k = bitlen m' + 55 - bitlen m;
                 a = m * 2 ^ k;
                 q = a div m';
                 r = a mod m'
             in round_dyadic (s \<noteq> s') (2 * q + (if r = 0 then 0 else 1)) (e - e' - int k - 1)))"

text \<open>Comparisons are false as soon as one side is a NaN; the two zeros are equal.\<close>

definition dlt :: "double \<Rightarrow> double \<Rightarrow> bool" where
  "dlt x y =
     (case (x, y) of
        (NaN, _) \<Rightarrow> False
      | (_, NaN) \<Rightarrow> False
      | (Inf s, Inf s') \<Rightarrow> s \<and> \<not> s'
      | (Inf s, Fin _ _ _) \<Rightarrow> s
      | (Fin _ _ _, Inf s') \<Rightarrow> \<not> s'
      | (Fin s m e, Fin s' m' e') \<Rightarrow>
          (let e0 = min e e'
           in signed s m * 2 ^ nat (e - e0) < signed s' m' * 2 ^ nat (e' - e0)))"

definition deq :: "double \<Rightarrow> double \<Rightarrow> bool" where
  "deq x y =
     (case (x, y) of
        (NaN, _) \<Rightarrow> False
      | (_, NaN) \<Rightarrow> False
      | (Inf s, Inf s') \<Rightarrow> s = s'
      | (Inf s, Fin _ _ _) \<Rightarrow> False
      | (Fin _ _ _, Inf s') \<Rightarrow> False
      | (Fin s m e, Fin s' m' e') \<Rightarrow>
          (let e0 = min e e'
           in signed s m * 2 ^ nat (e - e0) = signed s' m' * 2 ^ nat (e' - e0)))"

definition dle :: "double \<Rightarrow> double \<Rightarrow> bool" where
  "dle x y = (dlt x y \<or> deq x y)"

definition dgt :: "double \<Rightarrow> double \<Rightarrow> bool" where
  "dgt x y = dlt y x"

definition dge :: "double \<Rightarrow> double \<Rightarrow> bool" where
  "dge x y = dle y x"

text \<open>Integer constants and decimal literals of the source, correctly rounded.\<close>

definition double_of_int :: "int \<Rightarrow> double" where
  "double_of_int n = round_dyadic (n < 0) \<bar>n\<bar> 0"

definition decimal :: "int \<Rightarrow> int \<Rightarrow> double" where
  "decimal n d = ddiv (double_of_int n) (double_of_int d)"


text \<open>
  \<^verbatim>\<open>(int) x\<close> truncates toward zero. The C standard leaves the conversion undefined when
  the integral part does not fit a 32-bit \<^verbatim>\<open>int\<close>, and when \<open>x\<close> is a NaN or an infinity:
  that is the result \<open>None\<close>.
\<close>

definition int_of_double :: "double \<Rightarrow> int option" where
  "int_of_double x =
     (case x of
        Fin s m e \<Rightarrow>
          (let v = signed s (if 0 \<le> e then m * 2 ^ nat e else m div 2 ^ nat (- e))
           in if - 2147483648 \<le> v \<and> v \<le> 2147483647 then Some v else None)
      | _ \<Rightarrow> None)"

section \<open>The program\<close>

record PopulationParams =
  r :: double
  K :: double
  P0 :: double
  t_max :: double
  dt :: double

definition logistic_growth :: "double \<Rightarrow> double \<Rightarrow> PopulationParams \<Rightarrow> double" where
  "logistic_growth t P params =
     dmul (dmul (r params) P) (dsub (decimal 10 10) (ddiv P (K params)))"

text \<open>The step size argument of \<^verbatim>\<open>runge_kutta_4\<close> is \<open>h\<close> here; the source calls it \<^verbatim>\<open>dt\<close>.\<close>

definition runge_kutta_4 :: "double \<Rightarrow> double \<Rightarrow> double \<Rightarrow> PopulationParams \<Rightarrow> double" where
  "runge_kutta_4 t P h params =
     (let k1 = dmul h (logistic_growth t P params);
          k2 = dmul h (logistic_growth (dadd t (ddiv h (decimal 20 10)))
                         (dadd P (ddiv k1 (decimal 20 10))) params);
          k3 = dmul h (logistic_growth (dadd t (ddiv h (decimal 20 10)))
                         (dadd P (ddiv k2 (decimal 20 10))) params);
          k4 = dmul h (logistic_growth (dadd t h) (dadd P k3) params)
      in dadd P (ddiv (dadd (dadd (dadd k1 (dmul (double_of_int 2) k2))
                                  (dmul (double_of_int 2) k3)) k4)
                      (decimal 60 10)))"

datatype sample = Sample (sample_t: double) (sample_P: double)
  (growth_rate: double) (percentage_K: double)

datatype error = Int_conversion_undefined | Int_overflow | Invalid_parameter

text \<open>
  The \<^verbatim>\<open>for\<close> loop of \<^verbatim>\<open>run_simulation\<close>, from counter \<open>i\<close> on. It returns the rows
  computed (each with its counter), and the time printed by the capacity message when the
  loop is left by \<^verbatim>\<open>break\<close>. \<^verbatim>\<open>i++\<close> at \<^verbatim>\<open>INT_MAX\<close> is undefined in C.
\<close>

function sim_loop ::
  "PopulationParams \<Rightarrow> int \<Rightarrow> int \<Rightarrow> double \<Rightarrow> double \<Rightarrow>
     error + ((int \<times> sample) list \<times> double option)" where
  "sim_loop params steps i t P =
     (if i \<le> steps then
        (let growth_rate = logistic_growth t P params;
             percentage_K = dmul (ddiv P (K params)) (decimal 1000 10);
             row = (i, Sample t P growth_rate percentage_K);
             P' = runge_kutta_4 t P (dt params) params;
             t' = dadd t (dt params)
         in if dge P' (dmul (K params) (decimal 999 1000)) then Inr ([row], Some t')
            else if i = 2147483647 then Inl Int_overflow
            else (case sim_loop params steps (i + 1) t' P' of
                    Inl e \<Rightarrow> Inl e
                  | Inr (rows, c) \<Rightarrow> Inr (row # rows, c)))
      else Inr ([], None))"
  by pat_completeness auto
termination
  by (relation "measure (\<lambda>(params, steps, i, t, P). nat (steps + 1 - i))") auto

declare sim_loop.simps [simp del]

record sim_output =
  console_rows :: "sample list"
  csv_rows :: "sample list"
  capacity_time :: "double option"

text \<open>
  \<open>file_ok\<close> tells whether \<^verbatim>\<open>fopen\<close> succeeded. Every row goes to the file, every tenth
  to the console.
\<close>

definition run_simulation :: "bool \<Rightarrow> PopulationParams \<Rightarrow> error + sim_output" where
  "run_simulation file_ok params =
     (case int_of_double (ddiv (t_max params) (dt params)) of
        None \<Rightarrow> Inl Int_conversion_undefined
      | Some steps \<Rightarrow>
          (case sim_loop params steps 0 (decimal 0 10) (P0 params) of
             Inl e \<Rightarrow> Inl e
           | Inr (rows, c) \<Rightarrow>
               Inr \<lparr>console_rows = map snd (filter (\<lambda>(i, s). i mod 10 = 0) rows),
                    csv_rows = (if file_ok then map snd rows else []),
                    capacity_time = c\<rparr>))"

record analysis_output =
  equilibria :: "double list"
  half_capacity_time :: "double option"
  max_growth_rate :: double
  P_max_growth :: double

text \<open>
  \<^verbatim>\<open>log\<close> belongs to the C library, not to the program: \<open>lg\<close> stands for it.
\<close>

definition analyze_model :: "(double \<Rightarrow> double) \<Rightarrow> PopulationParams \<Rightarrow> analysis_output" where
  "analyze_model lg params =
     (let t_half = ddiv (lg (dsub (ddiv (K params) (P0 params)) (decimal 10 10))) (r params);
          P_max = ddiv (K params) (decimal 20 10);
          max_rate = dmul (dmul (r params) P_max) (dsub (decimal 10 10) (ddiv P_max (K params)))
      in \<lparr>equilibria = [double_of_int 0, K params],
          half_capacity_time = (if dgt t_half (double_of_int 0) then Some t_half else None),
          max_growth_rate = max_rate,
          P_max_growth = P_max\<rparr>)"

text \<open>
  \<^verbatim>\<open>input_parameters\<close> gets the five numbers read by \<^verbatim>\<open>scanf\<close>; \<^verbatim>\<open>exit(1)\<close> is the error
  result. The flag returned with the parameters is the warning \<^verbatim>\<open>P0 >= K\<close>.
\<close>

definition input_parameters :: "PopulationParams \<Rightarrow> error + (PopulationParams \<times> bool)" where
  "input_parameters params =
     (if dle (r params) (double_of_int 0) \<or> dle (K params) (double_of_int 0) \<or>
         dle (P0 params) (double_of_int 0) \<or> dle (t_max params) (double_of_int 0) \<or>
         dle (dt params) (double_of_int 0)
      then Inl Invalid_parameter
      else Inr (params, dge (P0 params) (K params)))"

datatype main_result =
  Exited int
| Completed analysis_output "error + sim_output"

definition scenario_params :: "int \<Rightarrow> PopulationParams option" where
  "scenario_params scenario =
     (if scenario = 1 then
        Some \<lparr>r = decimal 5 10, K = double_of_int 1000, P0 = double_of_int 10,
              t_max = decimal 500 10, dt = decimal 1 10\<rparr>
      else if scenario = 2 then
        Some \<lparr>r = decimal 3 100, K = double_of_int 100000, P0 = double_of_int 5000,
              t_max = decimal 2000 10, dt = decimal 1 10\<rparr>
      else if scenario = 3 then
        Some \<lparr>r = decimal 2 10, K = double_of_int 500, P0 = double_of_int 20,
              t_max = decimal 500 10, dt = decimal 1 10\<rparr>
      else None)"

text \<open>
  \<^verbatim>\<open>main\<close> with what it reads: the menu choice, the scenario number (read when the choice
  is 2) and the five parameters (read when the choice is 1).
\<close>

definition main :: "(double \<Rightarrow> double) \<Rightarrow> bool \<Rightarrow> int \<Rightarrow> int \<Rightarrow> PopulationParams \<Rightarrow> main_result" where
  "main lg file_ok choice scenario entered =
     (let run = (\<lambda>params. Completed (analyze_model lg params) (run_simulation file_ok params))
      in if choice = 1 then
           (case input_parameters entered of
              Inl e \<Rightarrow> Exited 1
            | Inr (params, warning) \<Rightarrow> run params)
         else if choice = 2 then
           (case scenario_params scenario of
              None \<Rightarrow> Exited 1
            | Some params \<Rightarrow> run params)
         else if choice = 3 then Exited 0
         else Exited 1)"

section \<open>Definitions used by the statements\<close>

text \<open>The integrator and the logistic law as the specification words them.\<close>

definition spec_logistic :: "double \<Rightarrow> double \<Rightarrow> double \<Rightarrow> double \<Rightarrow> double" where
  "spec_logistic rate capacity t P =
     dmul (dmul rate P) (dsub (double_of_int 1) (ddiv P capacity))"

definition spec_step ::
  "(double \<Rightarrow> double \<Rightarrow> double) \<Rightarrow> double \<Rightarrow> double \<Rightarrow> double \<Rightarrow> double" where
  "spec_step derivative t P h =
     (let k1 = dmul h (derivative t P);
          k2 = dmul h (derivative (dadd t (ddiv h (double_of_int 2)))
                         (dadd P (ddiv k1 (double_of_int 2))));
          k3 = dmul h (derivative (dadd t (ddiv h (double_of_int 2)))
                         (dadd P (ddiv k2 (double_of_int 2))));
          k4 = dmul h (derivative (dadd t h) (dadd P k3))
      in dadd P (ddiv (dadd (dadd (dadd k1 (dmul (double_of_int 2) k2))
                                  (dmul (double_of_int 2) k3)) k4)
                      (double_of_int 6)))"

text \<open>The value \<^verbatim>\<open>params->K * 0.999\<close> tested by the loop, and the row an iteration computes.\<close>

definition capacity_threshold :: "PopulationParams \<Rightarrow> double" where
  "capacity_threshold params = dmul (K params) (decimal 999 1000)"

definition row_of :: "PopulationParams \<Rightarrow> int \<Rightarrow> double \<Rightarrow> double \<Rightarrow> int \<times> sample" where
  "row_of params i t P =
     (i, Sample t P (logistic_growth t P params) (dmul (ddiv P (K params)) (decimal 1000 10)))"

text \<open>
  The exponent and the mantissa that \<open>round_dyadic\<close> selects for a positive \<open>n * 2^q\<close>,
  before the carry of a mantissa \<open>2^53\<close> and the overflow test.
\<close>

definition rd_exp :: "int \<Rightarrow> int \<Rightarrow> int" where
  "rd_exp n q = max (int (bitlen n) - 1 + q - 52) (- 1074)"

definition rd_man :: "int \<Rightarrow> int \<Rightarrow> int" where
  "rd_man n q =
     (if rd_exp n q \<le> q then n * 2 ^ nat (q - rd_exp n q)
      else round_half_even n (nat (rd_exp n q - q)))"

text \<open>
  Values a clock of the simulation takes (a non-negative double or \<open>+\<infinity>\<close>), strictly
  positive values as the validation of the inputs tests them, and parameters that are
  doubles and strictly positive.
\<close>

definition nonneg_time :: "double \<Rightarrow> bool" where
  "nonneg_time x = (case x of NaN \<Rightarrow> False | Inf s \<Rightarrow> \<not> s | Fin s m e \<Rightarrow> \<not> s \<and> is_double x)"

definition positive :: "double \<Rightarrow> bool" where
  "positive x = dgt x (double_of_int 0)"

definition valid_params :: "PopulationParams \<Rightarrow> bool" where
  "valid_params params =
     (is_double (r params) \<and> is_double (K params) \<and> is_double (P0 params) \<and>
      is_double (t_max params) \<and> is_double (dt params) \<and>
      positive (r params) \<and> positive (K params) \<and> positive (P0 params) \<and>
      positive (t_max params) \<and> positive (dt params))"

definition time_le :: "int \<times> sample \<Rightarrow> int \<times> sample \<Rightarrow> bool" where
  "time_le a b = dle (sample_t (snd a)) (sample_t (snd b))"

text \<open>Rows in the order of their times; parameters with a quotient beyond \<^verbatim>\<open>int\<close>.\<close>

definition times_nondecreasing :: "sample list \<Rightarrow> bool" where
  "times_nondecreasing rows = sorted_wrt (\<lambda>a b. dle (sample_t a) (sample_t b)) rows"

definition huge_run :: PopulationParams where
  "huge_run = \<lparr>r = double_of_int 1, K = double_of_int 1, P0 = double_of_int 1,
                t_max = double_of_int 4294967296, dt = double_of_int 1\<rparr>"

text \<open>
  Functions on binary numerals that evaluate the arithmetic by rewriting: the bit length,
  the product, the quotient and remainder by a small divisor, rounding a shifted mantissa
  to nearest-even, and the final packing of a rounded mantissa.
\<close>

fun numlen :: "num \<Rightarrow> num" where
  "numlen Num.One = Num.One"
| "numlen (Num.Bit0 n) = Num.inc (numlen n)"
| "numlen (Num.Bit1 n) = Num.inc (numlen n)"

fun nmul :: "num \<Rightarrow> num \<Rightarrow> num" where
  "nmul Num.One n = n"
| "nmul (Num.Bit0 m) n = Num.Bit0 (nmul m n)"
| "nmul (Num.Bit1 m) n = n + Num.Bit0 (nmul m n)"

fun sdivmod :: "int \<Rightarrow> num \<Rightarrow> int \<times> int" where
  "sdivmod c Num.One = (if 1 < c then (0, 1) else (1, 0))"
| "sdivmod c (Num.Bit0 n) =
     (case sdivmod c n of (quo, rem) \<Rightarrow>
        if c \<le> 2 * rem then (2 * quo + 1, 2 * rem - c) else (2 * quo, 2 * rem))"
| "sdivmod c (Num.Bit1 n) =
     (case sdivmod c n of (quo, rem) \<Rightarrow>
        if c \<le> 2 * rem + 1 then (2 * quo + 1, 2 * rem + 1 - c) else (2 * quo, 2 * rem + 1))"

definition pack :: "bool \<Rightarrow> int \<Rightarrow> int \<Rightarrow> double" where
  "pack s m qt =
     (if m = 9007199254740992 then (if 970 < qt then Inf s else Fin s 4503599627370496 (qt + 1))
      else if 971 < qt then Inf s
      else Fin s m qt)"

definition sdm :: "int \<Rightarrow> int \<Rightarrow> int \<times> int" where
  "sdm c a = (a div c, a mod c)"

definition rne :: "int \<Rightarrow> nat \<Rightarrow> int" where
  "rne n k =
     (let t = n + push_bit (k - 1) 1; q = drop_bit k t
      in if odd q \<and> push_bit k q = t then q - 1 else q)"

section \<open>Rounding to the nearest double\<close>

lemma bitlen_pos: "0 < n \<Longrightarrow> 0 < bitlen n"
  by (subst bitlen.simps) simp

lemma bitlen_nonpos: "n \<le> 0 \<Longrightarrow> bitlen n = 0"
  by (subst bitlen.simps) simp

lemma bitlen_bounds: "0 < n \<Longrightarrow> 2 ^ (bitlen n - 1) \<le> n \<and> n < 2 ^ bitlen n"
proof (induction n rule: bitlen.induct)
  case (1 n)
  show ?case
  proof (cases "n = 1")
    case True
    then show ?thesis by (simp add: bitlen.simps[of 1] bitlen.simps[of 0])
  next
    case False
    with "1.prems" have h: "0 < n div 2" by simp
    from "1.IH" "1.prems" h
    have ih: "2 ^ (bitlen (n div 2) - 1) \<le> n div 2" "n div 2 < 2 ^ bitlen (n div 2)" by simp_all
    have b: "bitlen n = Suc (bitlen (n div 2))"
      using "1.prems" by (subst bitlen.simps) simp
    have p: "0 < bitlen (n div 2)" using h by (rule bitlen_pos)
    have "2 ^ (bitlen n - 1) = (2::int) * 2 ^ (bitlen (n div 2) - 1)"
      using b p by (cases "bitlen (n div 2)") simp_all
    also have "\<dots> \<le> 2 * (n div 2)" using ih(1) by simp
    also have "\<dots> \<le> n" by simp
    finally have lo: "2 ^ (bitlen n - 1) \<le> n" .
    have "n < 2 * (n div 2) + 2" by presburger
    also have "\<dots> \<le> 2 * 2 ^ bitlen (n div 2)" using ih(2) by simp
    finally have "n < 2 ^ bitlen n" using b by simp
    with lo show ?thesis by simp
  qed
qed

lemma bitlen_eqI:
  assumes "2 ^ k \<le> n" "n < 2 ^ Suc k"
  shows "bitlen n = Suc k"
proof -
  have pos: "0 < n" using assms(1) by (smt (verit) zero_less_power)
  from bitlen_bounds[OF pos] have lo: "2 ^ (bitlen n - 1) \<le> n" and hi: "n < 2 ^ bitlen n" by simp_all
  from lo assms(2) have "(2::int) ^ (bitlen n - 1) < 2 ^ Suc k" by linarith
  then have a: "bitlen n - 1 < Suc k"
    by (rule power_less_imp_less_exp[of "2::int", rotated]) simp
  from assms(1) hi have "(2::int) ^ k < 2 ^ bitlen n" by linarith
  then have b: "k < bitlen n"
    by (rule power_less_imp_less_exp[of "2::int", rotated]) simp
  from a b show ?thesis by simp
qed

lemma round_dyadic_alt:
  assumes "0 < n"
  shows "round_dyadic s n q =
     (if rd_man n q = 2 ^ 53
      then (if 971 < rd_exp n q + 1 then Inf s else Fin s (2 ^ 52) (rd_exp n q + 1))
      else if 971 < rd_exp n q then Inf s
      else Fin s (rd_man n q) (rd_exp n q))"
proof -
  from assms have "\<not> n \<le> 0" by simp
  then show ?thesis
    by (simp only: round_dyadic_def rd_man_def rd_exp_def Let_def if_False)
qed

lemma two_powi_add: "(2::real) powi (a + b) = 2 powi a * 2 powi b"
  by (simp add: power_int_add)

lemma two_powi_split: "q \<le> qt \<Longrightarrow> (2::real) powi qt = 2 powi q * 2 ^ nat (qt - q)"
proof -
  assume "q \<le> qt"
  then have "qt = q + int (nat (qt - q))" by simp
  then have "(2::real) powi qt = 2 powi (q + int (nat (qt - q)))" by simp
  also have "\<dots> = 2 powi q * 2 powi (int (nat (qt - q)))" by (rule two_powi_add)
  also have "(2::real) powi (int (nat (qt - q))) = 2 ^ nat (qt - q)" by (rule power_int_of_nat)
  finally show ?thesis .
qed

lemma grid_scale:
  assumes "q \<le> qt"
  shows "real_of_int j * 2 powi qt = real_of_int (j * 2 ^ nat (qt - q)) * 2 powi q"
proof -
  have "real_of_int j * 2 powi qt = real_of_int j * (2 powi q * 2 ^ nat (qt - q))"
    by (simp only: two_powi_split[OF assms])
  also have "\<dots> = (real_of_int j * 2 ^ nat (qt - q)) * 2 powi q"
    by (simp only: mult_ac)
  also have "real_of_int j * 2 ^ nat (qt - q) = real_of_int (j * 2 ^ nat (qt - q))"
    by simp
  finally show ?thesis .
qed

lemma grid_le_iff:
  assumes "q \<le> qt"
  shows "real_of_int j * 2 powi qt \<le> real_of_int n * 2 powi q \<longleftrightarrow> j * 2 ^ nat (qt - q) \<le> n"
proof -
  have pos: "(0::real) < 2 powi q" by simp
  show ?thesis
    by (simp only: grid_scale[OF assms] mult_le_cancel_right_pos[OF pos] of_int_le_iff)
qed

lemma grid_ge_iff:
  assumes "q \<le> qt"
  shows "real_of_int n * 2 powi q \<le> real_of_int j * 2 powi qt \<longleftrightarrow> n \<le> j * 2 ^ nat (qt - q)"
proof -
  have pos: "(0::real) < 2 powi q" by simp
  show ?thesis
    by (simp only: grid_scale[OF assms] mult_le_cancel_right_pos[OF pos] of_int_le_iff)
qed

lemma rhe_lower: "n div 2 ^ k \<le> round_half_even n k"
  by (simp add: round_half_even_def Let_def)

lemma rhe_upper: "round_half_even n k \<le> n div 2 ^ k + 1"
  by (simp add: round_half_even_def Let_def)

lemma rhe_exact: "round_half_even (j * 2 ^ k) k = j"
  by (simp add: round_half_even_def Let_def)

lemma div_pow2_less:
  assumes "n < j * 2 ^ k"
  shows "n div 2 ^ k < (j::int)"
proof -
  have a: "n div 2 ^ k * 2 ^ k + n mod 2 ^ k = n" by (rule div_mult_mod_eq)
  have b: "0 \<le> n mod 2 ^ k" by simp
  from a b assms have "n div 2 ^ k * 2 ^ k < j * 2 ^ k" by linarith
  then show ?thesis by (simp add: mult_less_cancel_right)
qed

lemma div_pow2_ge:
  assumes "j * 2 ^ k \<le> n"
  shows "(j::int) \<le> n div 2 ^ k"
proof -
  from assms have "j * 2 ^ k div 2 ^ k \<le> n div 2 ^ k" by (rule zdiv_mono1) simp
  then show ?thesis by simp
qed

lemma rhe_ge: "j * 2 ^ k \<le> n \<Longrightarrow> j \<le> round_half_even n k"
  using div_pow2_ge[of j k n] rhe_lower[of n k] by linarith

lemma rhe_le:
  assumes "n \<le> j * 2 ^ k"
  shows "round_half_even n k \<le> j"
proof (cases "n = j * 2 ^ k")
  case True
  then show ?thesis by (simp add: rhe_exact)
next
  case False
  with assms have "n < j * 2 ^ k" by simp
  then have "n div 2 ^ k < j" by (rule div_pow2_less)
  with rhe_upper[of n k] show ?thesis by linarith
qed

lemma rd_man_ge:
  "real_of_int j * 2 powi rd_exp n q \<le> real_of_int n * 2 powi q \<Longrightarrow> j \<le> rd_man n q"
proof (cases "rd_exp n q \<le> q")
  case True
  assume h: "real_of_int j * 2 powi rd_exp n q \<le> real_of_int n * 2 powi q"
  from grid_ge_iff[OF True, of j n] h have "j \<le> n * 2 ^ nat (q - rd_exp n q)" by simp
  with True show ?thesis by (simp add: rd_man_def)
next
  case False
  assume h: "real_of_int j * 2 powi rd_exp n q \<le> real_of_int n * 2 powi q"
  from False have le: "q \<le> rd_exp n q" by simp
  from grid_le_iff[OF le, of j n] h have "j * 2 ^ nat (rd_exp n q - q) \<le> n" by simp
  then have "j \<le> round_half_even n (nat (rd_exp n q - q))" by (rule rhe_ge)
  with False show ?thesis by (simp add: rd_man_def)
qed

lemma rd_man_le:
  "real_of_int n * 2 powi q \<le> real_of_int j * 2 powi rd_exp n q \<Longrightarrow> rd_man n q \<le> j"
proof (cases "rd_exp n q \<le> q")
  case True
  assume h: "real_of_int n * 2 powi q \<le> real_of_int j * 2 powi rd_exp n q"
  from grid_le_iff[OF True, of n j] h have "n * 2 ^ nat (q - rd_exp n q) \<le> j" by simp
  with True show ?thesis by (simp add: rd_man_def)
next
  case False
  assume h: "real_of_int n * 2 powi q \<le> real_of_int j * 2 powi rd_exp n q"
  from False have le: "q \<le> rd_exp n q" by simp
  from grid_ge_iff[OF le, of n j] h have "n \<le> j * 2 ^ nat (rd_exp n q - q)" by simp
  then have "round_half_even n (nat (rd_exp n q - q)) \<le> j" by (rule rhe_le)
  with False show ?thesis by (simp add: rd_man_def)
qed


lemma bitlen_real_bounds:
  assumes "0 < n"
  shows "2 powi (int (bitlen n) - 1 + q) \<le> real_of_int n * 2 powi q"
    and "real_of_int n * 2 powi q < 2 powi (int (bitlen n) + q)"
proof -
  from bitlen_bounds[OF assms] have lo: "2 ^ (bitlen n - 1) \<le> n" and hi: "n < 2 ^ bitlen n"
    by simp_all
  have bp: "0 < bitlen n" using assms by (rule bitlen_pos)
  then have "int (bitlen n) - 1 = int (bitlen n - 1)" by simp
  then have e: "(2::real) powi (int (bitlen n) - 1) = 2 ^ (bitlen n - 1)"
    by (simp only: power_int_of_nat)
  from lo have "real_of_int (2 ^ (bitlen n - 1)) \<le> real_of_int n" by (simp only: of_int_le_iff)
  then have lo': "(2::real) powi (int (bitlen n) - 1) \<le> real_of_int n" by (simp add: e)
  from hi have "real_of_int n < real_of_int (2 ^ bitlen n)" by (simp only: of_int_less_iff)
  then have hi': "real_of_int n < (2::real) powi (int (bitlen n))" by simp
  have pos: "(0::real) < 2 powi q" by simp
  have "2 powi (int (bitlen n) - 1 + q) = (2::real) powi (int (bitlen n) - 1) * 2 powi q"
    by (rule two_powi_add)
  also have "\<dots> \<le> real_of_int n * 2 powi q"
    using lo' pos by (simp only: mult_le_cancel_right_pos)
  finally show "2 powi (int (bitlen n) - 1 + q) \<le> real_of_int n * 2 powi q" .
  have "real_of_int n * 2 powi q < (2::real) powi (int (bitlen n)) * 2 powi q"
    using hi' pos by (simp only: mult_less_cancel_right_pos)
  also have "\<dots> = 2 powi (int (bitlen n) + q)" by (rule two_powi_add[symmetric])
  finally show "real_of_int n * 2 powi q < 2 powi (int (bitlen n) + q)" .
qed

lemma two_powi_mono: "a \<le> b \<Longrightarrow> (2::real) powi a \<le> 2 powi b"
  by (rule power_int_increasing) simp_all

lemma two_powi_times: "(2::real) ^ k * 2 powi e = 2 powi (e + int k)"
  by (simp add: two_powi_add mult.commute)

lemma rd_exp_ge: "- 1074 \<le> rd_exp n q"
  by (simp add: rd_exp_def)

lemma rd_man_nonneg: "0 < n \<Longrightarrow> 0 \<le> rd_man n q"
  by (rule rd_man_ge) simp

lemma rd_man_le_53:
  assumes "0 < n"
  shows "rd_man n q \<le> 2 ^ 53"
proof (rule rd_man_le)
  have "real_of_int n * 2 powi q \<le> 2 powi (int (bitlen n) + q)"
    using bitlen_real_bounds(2)[OF assms, of q] by simp
  also have "\<dots> \<le> 2 powi (rd_exp n q + 53)"
    by (rule two_powi_mono) (simp add: rd_exp_def)
  also have "\<dots> = real_of_int (2 ^ 53) * 2 powi rd_exp n q"
    using two_powi_times[of 53 "rd_exp n q"] by simp
  finally show "real_of_int n * 2 powi q \<le> real_of_int (2 ^ 53) * 2 powi rd_exp n q" .
qed

lemma rd_man_ge_52:
  assumes "0 < n" and "- 1074 \<le> int (bitlen n) - 1 + q - 52"
  shows "2 ^ 52 \<le> rd_man n q"
proof (rule rd_man_ge)
  from assms(2) have e: "rd_exp n q = int (bitlen n) - 1 + q - 52" by (simp add: rd_exp_def)
  then have e2: "rd_exp n q + 52 = int (bitlen n) - 1 + q" by simp
  have "real_of_int (2 ^ 52) * 2 powi rd_exp n q = 2 powi (rd_exp n q + 52)"
    using two_powi_times[of 52 "rd_exp n q"] by simp
  also have "\<dots> = 2 powi (int (bitlen n) - 1 + q)" by (simp only: e2)
  also have "\<dots> \<le> real_of_int n * 2 powi q" by (rule bitlen_real_bounds(1)[OF assms(1)])
  finally show "real_of_int (2 ^ 52) * 2 powi rd_exp n q \<le> real_of_int n * 2 powi q" .
qed

lemma rd_man_le_52:
  assumes "0 < n" and "int (bitlen n) - 1 + q - 52 < - 1074"
  shows "rd_man n q \<le> 2 ^ 52"
proof (rule rd_man_le)
  from assms(2) have e: "rd_exp n q = - 1074" by (simp add: rd_exp_def)
  have "real_of_int n * 2 powi q \<le> 2 powi (int (bitlen n) + q)"
    using bitlen_real_bounds(2)[OF assms(1), of q] by simp
  also have "\<dots> \<le> 2 powi (rd_exp n q + 52)"
    by (rule two_powi_mono) (use assms(2) e in simp)
  also have "\<dots> = real_of_int (2 ^ 52) * 2 powi rd_exp n q"
    using two_powi_times[of 52 "rd_exp n q"] by simp
  finally show "real_of_int n * 2 powi q \<le> real_of_int (2 ^ 52) * 2 powi rd_exp n q" .
qed

lemma is_double_round_dyadic: "is_double (round_dyadic s n q)"
proof (cases "0 < n")
  case False
  then show ?thesis by (simp add: round_dyadic_def is_double_def)
next
  case True
  note alt = round_dyadic_alt[OF True, of s q]
  have ge: "- 1074 \<le> rd_exp n q" by (rule rd_exp_ge)
  have m0: "0 \<le> rd_man n q" using True by (rule rd_man_nonneg)
  have m53: "rd_man n q \<le> 2 ^ 53" using True by (rule rd_man_le_53)
  show ?thesis
  proof (cases "- 1074 \<le> int (bitlen n) - 1 + q - 52")
    case normal: True
    have "2 ^ 52 \<le> rd_man n q" using True normal by (rule rd_man_ge_52)
    with ge m53 show ?thesis by (auto simp: alt is_double_def)
  next
    case False
    then have lt: "int (bitlen n) - 1 + q - 52 < - 1074" by simp
    then have e: "rd_exp n q = - 1074" by (simp add: rd_exp_def)
    have "rd_man n q \<le> 2 ^ 52" using True lt by (rule rd_man_le_52)
    with m0 e show ?thesis by (auto simp: alt is_double_def)
  qed
qed

lemma round_dyadic_value:
  assumes "0 < n" and "round_dyadic s n q = Fin s' m e"
  shows "s' = s \<and> real_of_int m * 2 powi e = real_of_int (rd_man n q) * 2 powi rd_exp n q"
proof (cases "rd_man n q = 2 ^ 53")
  case True
  with assms round_dyadic_alt[OF assms(1), of s q]
  have "s' = s" "m = 2 ^ 52" "e = rd_exp n q + 1" by (auto split: if_splits)
  moreover have "real_of_int (2 ^ 52) * 2 powi (rd_exp n q + 1) = real_of_int (2 ^ 53) * 2 powi rd_exp n q"
    by (simp add: two_powi_add)
  ultimately show ?thesis using True by simp
next
  case False
  with assms round_dyadic_alt[OF assms(1), of s q]
  show ?thesis by (auto split: if_splits)
qed


lemma round_dyadic_cases:
  assumes "0 < n"
  shows "round_dyadic s n q = Inf s \<or>
         (\<exists>m e. round_dyadic s n q = Fin s m e \<and>
                real_of_int m * 2 powi e = real_of_int (rd_man n q) * 2 powi rd_exp n q)"
proof (cases "round_dyadic s n q")
  case NaN
  with round_dyadic_alt[OF assms, of s q] show ?thesis by (auto split: if_splits)
next
  case (Inf s')
  with round_dyadic_alt[OF assms, of s q] show ?thesis by (auto split: if_splits)
next
  case (Fin s' m e)
  with round_dyadic_value[OF assms, of s q s' m e] show ?thesis by simp
qed

lemma is_double_FinD:
  assumes "is_double (Fin s m e)"
  shows "0 \<le> m" "m < 2 ^ 53" "- 1074 \<le> e" "e \<le> 971"
    and "real_of_int m * 2 powi e < 2 powi (e + 53)"
proof -
  from assms show m0: "0 \<le> m" and m53: "m < 2 ^ 53" and "- 1074 \<le> e" and "e \<le> 971"
    by (auto simp: is_double_def)
  from m53 have "real_of_int m < real_of_int (2 ^ 53)" by (simp only: of_int_less_iff)
  then have "real_of_int m * 2 powi e < real_of_int (2 ^ 53) * 2 powi e"
    by (simp only: mult_less_cancel_right_pos[OF zero_less_power_int[of "2::real" e, OF zero_less_numeral]])
  also have "\<dots> = 2 powi (e + 53)" using two_powi_times[of 53 e] by simp
  finally show "real_of_int m * 2 powi e < 2 powi (e + 53)" .
qed

lemma two_powi_less_cancel:
  assumes "(2::real) powi a < 2 powi b"
  shows "a < b"
proof (rule ccontr)
  assume "\<not> a < b"
  then have "(2::real) powi b \<le> 2 powi a" by (intro two_powi_mono) simp
  with assms show False by simp
qed

lemma rd_exp_cases:
  "(rd_exp n q = int (bitlen n) - 1 + q - 52 \<and> - 1074 \<le> int (bitlen n) - 1 + q - 52) \<or>
   (rd_exp n q = - 1074 \<and> int (bitlen n) - 1 + q - 52 < - 1074)"
  by (auto simp: rd_exp_def)

lemma round_dyadic_upper:
  assumes n: "0 < n" and B: "is_double (Fin sb M E)"
    and le: "real_of_int n * 2 powi q \<le> real_of_int M * 2 powi E"
  shows "\<exists>m e. round_dyadic s n q = Fin s m e \<and>
               real_of_int m * 2 powi e \<le> real_of_int M * 2 powi E"
proof -
  note Bd = is_double_FinD[OF B]
  let ?ex = "int (bitlen n) - 1 + q"
  let ?qt = "rd_exp n q"
  have lo: "2 powi ?ex \<le> real_of_int n * 2 powi q" by (rule bitlen_real_bounds(1)[OF n])
  have "2 powi ?ex < (2::real) powi (E + 53)" using lo le Bd(5) by linarith
  then have exE: "?ex < E + 53" by (rule two_powi_less_cancel)
  have Eqt: "?qt \<le> E" using exE Bd(3) by (simp add: rd_exp_def)
  have qt971: "?qt \<le> 971" using Eqt Bd(4) by simp
  let ?j = "M * 2 ^ nat (E - ?qt)"
  have gj: "real_of_int M * 2 powi E = real_of_int ?j * 2 powi ?qt" by (rule grid_scale[OF Eqt])
  have mj: "rd_man n q \<le> ?j" by (rule rd_man_le) (use le gj in simp)
  then have val: "real_of_int (rd_man n q) * 2 powi ?qt \<le> real_of_int M * 2 powi E"
    unfolding gj by (simp only: mult_le_cancel_right_pos[OF zero_less_power_int[of "2::real" ?qt, OF zero_less_numeral]] of_int_le_iff)
  have notinf: "round_dyadic s n q \<noteq> Inf s"
  proof (cases "rd_man n q = 2 ^ 53")
    case True
    have "2 powi (?qt + 53) = real_of_int (rd_man n q) * 2 powi ?qt"
      using two_powi_times[of 53 ?qt] True by simp
    also have "\<dots> < 2 powi (E + 53)" using val Bd(5) by linarith
    finally have "?qt + 53 < E + 53" by (rule two_powi_less_cancel)
    with Bd(4) have "\<not> 971 < ?qt + 1" by simp
    with True show ?thesis by (simp add: round_dyadic_alt[OF n])
  next
    case False
    with qt971 show ?thesis by (simp add: round_dyadic_alt[OF n])
  qed
  with round_dyadic_cases[OF n, of s q] val show ?thesis by auto
qed

lemma round_dyadic_lower:
  assumes n: "0 < n" and B: "is_double (Fin sb M E)"
    and le: "real_of_int M * 2 powi E \<le> real_of_int n * 2 powi q"
  shows "round_dyadic s n q = Inf s \<or>
         (\<exists>m e. round_dyadic s n q = Fin s m e \<and>
                real_of_int M * 2 powi E \<le> real_of_int m * 2 powi e)"
proof -
  note Bd = is_double_FinD[OF B]
  let ?ex = "int (bitlen n) - 1 + q"
  let ?qt = "rd_exp n q"
  have val: "real_of_int M * 2 powi E \<le> real_of_int (rd_man n q) * 2 powi ?qt"
  proof (cases "?qt \<le> E")
    case True
    let ?j = "M * 2 ^ nat (E - ?qt)"
    have gj: "real_of_int M * 2 powi E = real_of_int ?j * 2 powi ?qt" by (rule grid_scale[OF True])
    have "?j \<le> rd_man n q" by (rule rd_man_ge) (use le gj in simp)
    then show ?thesis
      unfolding gj by (simp only: mult_le_cancel_right_pos[OF zero_less_power_int[of "2::real" ?qt, OF zero_less_numeral]] of_int_le_iff)
  next
    case False
    with Bd(3) have "- 1074 < ?qt" by simp
    with rd_exp_cases[of n q] have e: "?qt = ?ex - 52" and normal: "- 1074 \<le> ?ex - 52" by auto
    have "2 ^ 52 \<le> rd_man n q" using n normal by (rule rd_man_ge_52)
    then have "real_of_int (2 ^ 52) \<le> real_of_int (rd_man n q)" by (simp only: of_int_le_iff)
    then have m: "real_of_int (2 ^ 52) * 2 powi ?qt \<le> real_of_int (rd_man n q) * 2 powi ?qt"
      by (simp only: mult_le_cancel_right_pos[OF zero_less_power_int[of "2::real" ?qt, OF zero_less_numeral]])
    have "real_of_int M * 2 powi E \<le> 2 powi (E + 53)" using Bd(5) by simp
    also have "\<dots> \<le> 2 powi (?qt + 52)" by (rule two_powi_mono) (use False in simp)
    also have "\<dots> = real_of_int (2 ^ 52) * 2 powi ?qt" using two_powi_times[of 52 ?qt] by simp
    finally show ?thesis using m by linarith
  qed
  with round_dyadic_cases[OF n, of s q] show ?thesis by auto
qed

section \<open>Evaluating the arithmetic\<close>

lemma bitlen_numeral [simp]:
  "bitlen 0 = 0" "bitlen 1 = 1"
  "bitlen (numeral (Num.Bit0 n)) = Suc (bitlen (numeral n))"
  "bitlen (numeral (Num.Bit1 n)) = Suc (bitlen (numeral n))"
  by (subst bitlen.simps, simp)+

lemmas eval_defs = decimal_def ddiv_def dmul_def dadd_def dsub_def dneg_def dlt_def deq_def
  dle_def dge_def dgt_def double_of_int_def round_dyadic_def round_half_even_def signed_def Let_def

lemma double_of_int_0: "double_of_int 0 = Fin False 0 (- 1074)"
  by (simp add: double_of_int_def round_dyadic_def)

lemma double_of_int_1: "double_of_int 1 = Fin False (2 ^ 52) (- 52)"
  by (simp add: double_of_int_def round_dyadic_def Let_def)

lemma double_of_int_2: "double_of_int 2 = Fin False (2 ^ 52) (- 51)"
  by (simp add: double_of_int_def round_dyadic_def Let_def)

lemma double_of_int_6: "double_of_int 6 = Fin False (3 * 2 ^ 51) (- 50)"
  by (simp add: double_of_int_def round_dyadic_def Let_def)

lemma decimal_0_0: "decimal 0 10 = Fin False 0 (- 1074)"
  by (simp add: eval_defs)

lemma decimal_1_0: "decimal 10 10 = Fin False (2 ^ 52) (- 52)"
  by (simp add: eval_defs)

lemma decimal_2_0: "decimal 20 10 = Fin False (2 ^ 52) (- 51)"
  by (simp add: eval_defs)

lemma decimal_6_0: "decimal 60 10 = Fin False (3 * 2 ^ 51) (- 50)"
  by (simp add: eval_defs)

section \<open>Comparisons and sums over exact values\<close>

lemma valof_Fin: "valof (Fin s m e) = real_of_int (signed s m) * 2 powi e"
  by (simp add: valof_def signed_def)

lemma signed_scale:
  "e0 \<le> e \<Longrightarrow> real_of_int (signed s m * 2 ^ nat (e - e0)) * 2 powi e0 = valof (Fin s m e)"
  by (simp only: valof_Fin grid_scale[symmetric])

lemma dlt_Fin: "dlt (Fin s m e) (Fin s' m' e') \<longleftrightarrow> valof (Fin s m e) < valof (Fin s' m' e')"
proof -
  let ?e0 = "min e e'"
  have pos: "(0::real) < 2 powi ?e0" by simp
  have "dlt (Fin s m e) (Fin s' m' e') \<longleftrightarrow>
        signed s m * 2 ^ nat (e - ?e0) < signed s' m' * 2 ^ nat (e' - ?e0)"
    by (simp add: dlt_def Let_def)
  also have "\<dots> \<longleftrightarrow> real_of_int (signed s m * 2 ^ nat (e - ?e0)) * 2 powi ?e0
                    < real_of_int (signed s' m' * 2 ^ nat (e' - ?e0)) * 2 powi ?e0"
    by (simp only: mult_less_cancel_right_pos[OF pos] of_int_less_iff)
  also have "\<dots> \<longleftrightarrow> valof (Fin s m e) < valof (Fin s' m' e')"
    by (simp only: signed_scale[OF min.cobounded1] signed_scale[OF min.cobounded2])
  finally show ?thesis .
qed

lemma deq_Fin: "deq (Fin s m e) (Fin s' m' e') \<longleftrightarrow> valof (Fin s m e) = valof (Fin s' m' e')"
proof -
  let ?e0 = "min e e'"
  have ne: "(2::real) powi ?e0 \<noteq> 0" by simp
  have "deq (Fin s m e) (Fin s' m' e') \<longleftrightarrow>
        signed s m * 2 ^ nat (e - ?e0) = signed s' m' * 2 ^ nat (e' - ?e0)"
    by (simp add: deq_def Let_def)
  also have "\<dots> \<longleftrightarrow> real_of_int (signed s m * 2 ^ nat (e - ?e0)) * 2 powi ?e0
                    = real_of_int (signed s' m' * 2 ^ nat (e' - ?e0)) * 2 powi ?e0"
    using ne by (simp only: mult_cancel_right of_int_eq_iff) simp
  also have "\<dots> \<longleftrightarrow> valof (Fin s m e) = valof (Fin s' m' e')"
    by (simp only: signed_scale[OF min.cobounded1] signed_scale[OF min.cobounded2])
  finally show ?thesis .
qed

lemma dle_Fin: "dle (Fin s m e) (Fin s' m' e') \<longleftrightarrow> valof (Fin s m e) \<le> valof (Fin s' m' e')"
  by (auto simp: dle_def dlt_Fin deq_Fin)

lemma dge_Fin: "dge (Fin s m e) (Fin s' m' e') \<longleftrightarrow> valof (Fin s' m' e') \<le> valof (Fin s m e)"
  by (simp add: dge_def dle_Fin)

lemma dgt_Fin: "dgt (Fin s m e) (Fin s' m' e') \<longleftrightarrow> valof (Fin s' m' e') < valof (Fin s m e)"
  by (simp add: dgt_def dlt_Fin)

lemma dadd_Fin:
  "dadd (Fin s m e) (Fin s' m' e') =
     (let c = signed s m * 2 ^ nat (e - min e e') + signed s' m' * 2 ^ nat (e' - min e e')
      in if c = 0 then Fin (s \<and> s') 0 (- 1074) else round_dyadic (c < 0) \<bar>c\<bar> (min e e'))"
  by (simp add: dadd_def Let_def)

lemma dadd_exact_sum:
  "real_of_int (signed s m * 2 ^ nat (e - min e e') + signed s' m' * 2 ^ nat (e' - min e e'))
     * 2 powi (min e e') = valof (Fin s m e) + valof (Fin s' m' e')"
  by (simp only: of_int_add distrib_right signed_scale[OF min.cobounded1] signed_scale[OF min.cobounded2])

lemma is_double_special [simp]:
  "is_double NaN" "is_double (Inf s)" "is_double (Fin s 0 (- 1074))"
  by (simp_all add: is_double_def)

lemma is_double_dadd: "is_double (dadd x y)"
  by (cases x; cases y) (simp_all add: dadd_def Let_def is_double_round_dyadic)

lemma is_double_dmul: "is_double (dmul x y)"
  by (cases x; cases y) (simp_all add: dmul_def Let_def is_double_round_dyadic)

lemma is_double_ddiv: "is_double (ddiv x y)"
  by (cases x; cases y) (simp_all add: ddiv_def Let_def is_double_round_dyadic)

text \<open>Adding a positive double to a non-negative one does not decrease it.\<close>

lemma dadd_nonneg_pos:
  assumes t: "is_double (Fin False m e)" and h: "is_double (Fin False m' e')" and pos: "0 < m'"
  shows "dadd (Fin False m e) (Fin False m' e') = Inf False \<or>
         (\<exists>m'' e''. dadd (Fin False m e) (Fin False m' e') = Fin False m'' e'' \<and>
                    valof (Fin False m e) \<le> valof (Fin False m'' e''))"
proof -
  let ?e0 = "min e e'"
  let ?c = "signed False m * 2 ^ nat (e - ?e0) + signed False m' * 2 ^ nat (e' - ?e0)"
  from is_double_FinD(1)[OF t] have m0: "0 \<le> m" .
  have cpos: "0 < ?c" using m0 pos by (simp add: signed_def add_nonneg_pos)
  have sum: "real_of_int ?c * 2 powi ?e0 = valof (Fin False m e) + valof (Fin False m' e')"
    by (rule dadd_exact_sum)
  have "0 \<le> valof (Fin False m' e')" using pos by (simp add: valof_def)
  with sum have le: "real_of_int m * 2 powi e \<le> real_of_int ?c * 2 powi ?e0"
    by (simp add: valof_def)
  have eq: "dadd (Fin False m e) (Fin False m' e') = round_dyadic False ?c ?e0"
    using cpos by (simp add: dadd_Fin Let_def)
  from round_dyadic_lower[OF cpos t le, of False] show ?thesis
    unfolding eq by (simp add: valof_def)
qed


lemma positive_cases:
  assumes "positive x" and "is_double x"
  shows "x = Inf False \<or> (\<exists>m e. x = Fin False m e \<and> 0 < m)"
proof (cases x)
  case NaN
  with assms show ?thesis by (simp add: positive_def dgt_def dlt_def double_of_int_0)
next
  case (Inf s)
  with assms show ?thesis by (simp add: positive_def dgt_def dlt_def double_of_int_0)
next
  case (Fin s m e)
  with assms(1) have "valof (Fin False 0 (- 1074)) < valof (Fin s m e)"
    by (simp add: positive_def dgt_Fin double_of_int_0)
  then have "0 < real_of_int (signed s m) * 2 powi e" by (simp add: valof_Fin signed_def)
  then have "0 < real_of_int (signed s m)" by (rule zero_less_mult_pos2) simp
  then have sg: "0 < signed s m" by simp
  from assms(2) Fin have "0 \<le> m" by (simp add: is_double_FinD(1))
  with sg have "\<not> s \<and> 0 < m" by (cases s) (simp_all add: signed_def)
  with Fin show ?thesis by simp
qed

lemma nonneg_time_step:
  assumes t: "nonneg_time t" and h: "is_double h" "positive h"
  shows "nonneg_time (dadd t h) \<and> dle t (dadd t h)"
proof -
  from positive_cases[OF h(2) h(1)] consider "h = Inf False" | m' e' where "h = Fin False m' e'" "0 < m'"
    by blast
  then show ?thesis
  proof cases
    case 1
    with t show ?thesis
      by (cases t) (simp_all add: nonneg_time_def dadd_def dle_def dlt_def deq_def)
  next
    case 2
    show ?thesis
    proof (cases t)
      case NaN
      with t show ?thesis by (simp add: nonneg_time_def)
    next
      case (Inf s)
      with t 2 show ?thesis by (simp add: nonneg_time_def dadd_def dle_def dlt_def deq_def)
    next
      case (Fin s m e)
      with t have s: "\<not> s" and d: "is_double (Fin False m e)" by (auto simp: nonneg_time_def)
      from h(1) 2 have dh: "is_double (Fin False m' e')" by simp
      from dadd_nonneg_pos[OF d dh 2(2)] show ?thesis
      proof
        assume "dadd (Fin False m e) (Fin False m' e') = Inf False"
        with Fin s 2 show ?thesis by (simp add: nonneg_time_def dle_def dlt_def)
      next
        assume "\<exists>m'' e''. dadd (Fin False m e) (Fin False m' e') = Fin False m'' e'' \<and>
                    valof (Fin False m e) \<le> valof (Fin False m'' e'')"
        then obtain m'' e'' where eq: "dadd (Fin False m e) (Fin False m' e') = Fin False m'' e''"
          and le: "valof (Fin False m e) \<le> valof (Fin False m'' e'')" by blast
        have "is_double (Fin False m'' e'')" using is_double_dadd[of "Fin False m e" "Fin False m' e'"] eq by simp
        with Fin s 2 eq le show ?thesis by (simp add: nonneg_time_def dle_Fin)
      qed
    qed
  qed
qed

lemma dle_nonneg_refl: "nonneg_time t \<Longrightarrow> dle t t"
  by (cases t) (simp_all add: nonneg_time_def dle_def deq_def)

lemma dle_nonneg_trans:
  assumes "nonneg_time a" "nonneg_time b" "nonneg_time c" "dle a b" "dle b c"
  shows "dle a c"
proof (cases a; cases b; cases c)
  fix s1 m1 e1 s2 m2 e2 s3 m3 e3
  assume "a = Fin s1 m1 e1" "b = Fin s2 m2 e2" "c = Fin s3 m3 e3"
  with assms(4,5) show ?thesis by (simp add: dle_Fin)
qed (use assms in \<open>simp_all add: nonneg_time_def dle_def dlt_def deq_def\<close>)

section \<open>Evaluation on numerals\<close>

lemma numlen_correct: "bitlen (numeral n) = numeral (numlen n)"
  by (induction n) (simp_all add: numeral_inc)

lemma odd_times: "a + 2 * (b * a) = (2 * b + 1) * (a::int)"
  by (simp add: algebra_simps)

lemma nmul_correct: "(numeral (nmul m n) :: int) = numeral m * numeral n"
proof (induction m)
  case One
  show ?case by (simp only: nmul.simps numeral_One mult_1)
next
  case (Bit0 m)
  have "(numeral (nmul (Num.Bit0 m) n) :: int) = 2 * numeral (nmul m n)"
    by (simp only: nmul.simps numeral_Bit0_eq_double[of "nmul m n"])
  also have "\<dots> = 2 * (numeral m * numeral n)" by (simp only: Bit0.IH)
  also have "\<dots> = (2 * numeral m) * numeral n" by (rule mult.assoc[symmetric])
  also have "\<dots> = numeral (Num.Bit0 m) * numeral n"
    by (simp only: numeral_Bit0_eq_double[of m])
  finally show ?case .
next
  case (Bit1 m)
  have "(numeral (nmul (Num.Bit1 m) n) :: int) = numeral n + 2 * numeral (nmul m n)"
    by (simp only: nmul.simps numeral_add numeral_Bit0_eq_double[of "nmul m n"])
  also have "\<dots> = numeral n + 2 * (numeral m * numeral n)" by (simp only: Bit1.IH)
  also have "\<dots> = (2 * numeral m + 1) * numeral n" by (rule odd_times)
  also have "\<dots> = numeral (Num.Bit1 m) * numeral n"
    by (simp only: numeral_Bit1_eq_inc_double[of m])
  finally show ?case .
qed

lemma divmod_double:
  fixes c :: int
  assumes "0 \<le> u" "u < c"
  shows "(2 * (c * v + u)) div c = (if c \<le> 2 * u then 2 * v + 1 else 2 * v)"
    and "(2 * (c * v + u)) mod c = (if c \<le> 2 * u then 2 * u - c else 2 * u)"
proof -
  have a: "2 * (c * v + u) = c * (2 * v + 1) + (2 * u - c)" by (simp add: algebra_simps)
  have b: "2 * (c * v + u) = c * (2 * v) + 2 * u" by (simp add: algebra_simps)
  show "(2 * (c * v + u)) div c = (if c \<le> 2 * u then 2 * v + 1 else 2 * v)"
    using int_div_pos_eq[OF a] int_div_pos_eq[OF b] assms by auto
  show "(2 * (c * v + u)) mod c = (if c \<le> 2 * u then 2 * u - c else 2 * u)"
    using int_mod_pos_eq[OF a] int_mod_pos_eq[OF b] assms by auto
qed

lemma divmod_double_inc:
  fixes c :: int
  assumes "0 \<le> u" "u < c"
  shows "(2 * (c * v + u) + 1) div c = (if c \<le> 2 * u + 1 then 2 * v + 1 else 2 * v)"
    and "(2 * (c * v + u) + 1) mod c = (if c \<le> 2 * u + 1 then 2 * u + 1 - c else 2 * u + 1)"
proof -
  have a: "2 * (c * v + u) + 1 = c * (2 * v + 1) + (2 * u + 1 - c)" by (simp add: algebra_simps)
  have b: "2 * (c * v + u) + 1 = c * (2 * v) + (2 * u + 1)" by (simp add: algebra_simps)
  show "(2 * (c * v + u) + 1) div c = (if c \<le> 2 * u + 1 then 2 * v + 1 else 2 * v)"
    using int_div_pos_eq[OF a] int_div_pos_eq[OF b] assms by auto
  show "(2 * (c * v + u) + 1) mod c = (if c \<le> 2 * u + 1 then 2 * u + 1 - c else 2 * u + 1)"
    using int_mod_pos_eq[OF a] int_mod_pos_eq[OF b] assms by auto
qed

lemma sdivmod_correct:
  assumes "1 \<le> c"
  shows "sdivmod c n = (numeral n div c, numeral n mod c)"
proof (induction n)
  case One
  show ?case using assms by (cases "c = 1") simp_all
next
  case (Bit0 n)
  let ?x = "numeral n :: int"
  have rb: "0 \<le> ?x mod c" "?x mod c < c" using assms by simp_all
  have x: "c * (?x div c) + ?x mod c = ?x" by simp
  have e: "numeral (Num.Bit0 n) = 2 * (c * (?x div c) + ?x mod c)"
    by (simp only: x numeral_Bit0_eq_double[of n])
  show ?case
    by (simp only: sdivmod.simps Bit0.IH prod.case e divmod_double[OF rb]) simp
next
  case (Bit1 n)
  let ?x = "numeral n :: int"
  have rb: "0 \<le> ?x mod c" "?x mod c < c" using assms by simp_all
  have x: "c * (?x div c) + ?x mod c = ?x" by simp
  have e: "numeral (Num.Bit1 n) = 2 * (c * (?x div c) + ?x mod c) + 1"
    by (simp only: x numeral_Bit1_eq_inc_double[of n])
  show ?case
    by (simp only: sdivmod.simps Bit1.IH prod.case e divmod_double_inc[OF rb]) simp
qed

lemma half_shift:
  fixes n d h :: int
  assumes d: "d = 2 * h" and h: "0 < h"
  shows "(n + h) div d = (if n mod d < h then n div d else n div d + 1)"
    and "(n + h) mod d = 0 \<longleftrightarrow> n mod d = h"
proof -
  have dpos: "0 < d" using d h by simp
  have rb: "0 \<le> n mod d" "n mod d < d" using dpos by simp_all
  have n: "n = d * (n div d) + n mod d" by simp
  have a: "n + h = d * (n div d) + (n mod d + h)" using n by linarith
  have b: "n + h = d * (n div d + 1) + (n mod d - h)"
  proof -
    have "d * (n div d + 1) = d * (n div d) + d" by (simp add: algebra_simps)
    with n d show ?thesis by linarith
  qed
  show "(n + h) div d = (if n mod d < h then n div d else n div d + 1)"
  proof (cases "n mod d < h")
    case True
    with rb d h have "0 \<le> n mod d + h" "n mod d + h < d" by linarith+
    from int_div_pos_eq[OF a this] True show ?thesis by simp
  next
    case False
    with rb d h have "0 \<le> n mod d - h" "n mod d - h < d" by linarith+
    from int_div_pos_eq[OF b this] False show ?thesis by simp
  qed
  show "(n + h) mod d = 0 \<longleftrightarrow> n mod d = h"
  proof (cases "n mod d < h")
    case True
    with rb d h have c: "0 \<le> n mod d + h" "n mod d + h < d" by linarith+
    from int_mod_pos_eq[OF a c] True rb h show ?thesis by linarith
  next
    case False
    with rb d h have c: "0 \<le> n mod d - h" "n mod d - h < d" by linarith+
    from int_mod_pos_eq[OF b c] show ?thesis by linarith
  qed
qed

lemma rne_correct:
  assumes "0 < k"
  shows "round_half_even n k = rne n k"
proof -
  let ?d = "(2::int) ^ k" and ?h = "(2::int) ^ (k - 1)"
  have d: "?d = 2 * ?h" using assms by (cases k) simp_all
  have h: "0 < ?h" by simp
  note hs = half_shift[OF d h, of n]
  have tie: "(n + ?h) div ?d * ?d = n + ?h \<longleftrightarrow> n mod ?d = ?h"
  proof -
    have "(n + ?h) div ?d * ?d = n + ?h \<longleftrightarrow> (n + ?h) mod ?d = 0"
      using div_mult_mod_eq[of "n + ?h" ?d] by linarith
    then show ?thesis by (simp only: hs(2))
  qed
  have r: "rne n k = (let q = (n + ?h) div ?d in if odd q \<and> n mod ?d = ?h then q - 1 else q)"
    by (simp only: rne_def Let_def drop_bit_eq_div tie push_bit_eq_mult mult_1)
  consider "n mod ?d < ?h" | "n mod ?d = ?h" | "?h < n mod ?d" by linarith
  then show ?thesis
  proof cases
    case 1
    then have "2 * (n mod ?d) < ?d" using d by linarith
    with 1 hs(1) show ?thesis by (simp add: r round_half_even_def Let_def)
  next
    case 2
    then have "\<not> 2 * (n mod ?d) < ?d" "\<not> ?d < 2 * (n mod ?d)" using d by linarith+
    with 2 hs(1) show ?thesis by (simp add: r round_half_even_def Let_def)
  next
    case 3
    then have "\<not> 2 * (n mod ?d) < ?d" "?d < 2 * (n mod ?d)" using d by linarith+
    with 3 hs(1) show ?thesis by (simp add: r round_half_even_def Let_def)
  qed
qed


lemma rhe_rne: "\<not> qt \<le> q \<Longrightarrow> round_half_even n (nat (qt - q)) = rne n (nat (qt - q))"
  by (rule rne_correct) simp

lemma round_dyadic_by_len:
  assumes "0 < n" and "int (bitlen n) = len"
  shows "round_dyadic s n q =
     (let qt = max (len - 53 + q) (- 1074)
      in if qt \<le> q then pack s (push_bit (nat (q - qt)) n) qt
         else pack s (rne n (nat (qt - q))) qt)"
proof -
  let ?qt = "max (len - 53 + q) (- 1074)"
  have b: "int (bitlen n) - 1 + q - 52 = len - 53 + q" using assms(2) by simp
  have pos: "\<not> n \<le> 0" using assms(1) by simp
  have p: "(2::int) ^ 53 = 9007199254740992" "(2::int) ^ 52 = 4503599627370496" by simp_all
  show ?thesis
  proof (cases "?qt \<le> q")
    case True
    then show ?thesis
      unfolding round_dyadic_def Let_def b pack_def push_bit_eq_mult p
      by (simp only: pos if_False if_True) auto
  next
    case False
    then show ?thesis
      unfolding round_dyadic_def Let_def b pack_def p
      by (simp only: pos if_False rhe_rne[OF False]) auto
  qed
qed

lemma round_dyadic_numeral:
  "round_dyadic s (numeral n) q =
     (let qt = max (numeral (numlen n) - 53 + q) (- 1074)
      in if qt \<le> q then pack s (push_bit (nat (q - qt)) (numeral n)) qt
         else pack s (rne (numeral n) (nat (qt - q))) qt)"
proof (rule round_dyadic_by_len)
  show "0 < (numeral n :: int)" by simp
  show "int (bitlen (numeral n)) = numeral (numlen n)"
    by (simp only: numlen_correct of_nat_numeral)
qed


lemma bitlen_shift:
  assumes "0 < m"
  shows "bitlen (m * 2 ^ j) = bitlen m + j"
proof -
  from bitlen_bounds[OF assms] have lo: "2 ^ (bitlen m - 1) \<le> m" and hi: "m < 2 ^ bitlen m"
    by simp_all
  have bp: "0 < bitlen m" using assms by (rule bitlen_pos)
  then obtain b where b: "bitlen m = Suc b" by (cases "bitlen m") simp_all
  from lo b have "2 ^ b * 2 ^ j \<le> m * (2::int) ^ j" by simp
  then have l: "2 ^ (b + j) \<le> m * (2::int) ^ j" by (simp only: power_add)
  from hi b have "m * 2 ^ j < 2 ^ Suc b * (2::int) ^ j" by simp
  then have "m * 2 ^ j < (2::int) ^ (Suc b + j)" by (simp only: power_add)
  then have h: "m * 2 ^ j < (2::int) ^ Suc (b + j)" by simp
  from bitlen_eqI[OF l h] b show ?thesis by simp
qed

lemma bitlen_normal: "2 ^ 52 \<le> m \<Longrightarrow> m < 2 ^ 53 \<Longrightarrow> bitlen m = 53"
  using bitlen_eqI[of 52 m] by simp

lemma round_dyadic_exact:
  assumes d: "is_double (Fin s m e)" and m: "0 < m"
  shows "round_dyadic s' (m * 2 ^ j) (e - int j) = Fin s' m e"
proof -
  note D = is_double_FinD[OF d]
  have pos: "0 < m * 2 ^ j" using m by simp
  have len: "int (bitlen (m * 2 ^ j)) = int (bitlen m) + int j" using bitlen_shift[OF m] by simp
  have bm: "int (bitlen m) \<le> 53"
  proof -
    from bitlen_bounds[OF m] D(2) have "(2::int) ^ (bitlen m - 1) < 2 ^ 53" by linarith
    then have "bitlen m - 1 < 53" by (rule power_less_imp_less_exp[of "2::int", rotated]) simp
    then show ?thesis by simp
  qed
  have qt: "max (int (bitlen m) + int j - 53 + (e - int j)) (- 1074) = e"
  proof (cases "2 ^ 52 \<le> m")
    case True
    from bitlen_normal[OF True D(2)] have "bitlen m = 53" .
    with D(3) show ?thesis by simp
  next
    case False
    with d have "e = - 1074" by (auto simp: is_double_def)
    with bm show ?thesis by simp
  qed
  have m53: "m \<noteq> 9007199254740992" using D(2) by simp
  have pk: "pack s' m e = Fin s' m e" using m53 D(4) by (simp add: pack_def)
  note eq = round_dyadic_by_len[OF pos len, of s' "e - int j"]
  show ?thesis
  proof (cases "j = 0")
    case True
    show ?thesis unfolding eq qt Let_def using True pk by simp
  next
    case False
    have "rne (m * 2 ^ j) j = m" using rne_correct[of j "m * 2 ^ j"] False by (simp add: rhe_exact)
    then show ?thesis unfolding eq qt Let_def using False pk by simp
  qed
qed

lemma dmul_numeral:
  "dmul (Fin s (numeral m) e) (Fin s' (numeral m') e') =
     round_dyadic (s \<noteq> s') (numeral (nmul m m')) (e + e')"
  unfolding dmul_def by (simp only: prod.case double.case nmul_correct)

lemma signed_push: "signed s m * 2 ^ k = signed s (push_bit k m)"
  by (simp add: signed_def push_bit_eq_mult)

lemma dadd_push:
  "dadd (Fin s m e) (Fin s' m' e') =
     (let e0 = min e e';
          c = signed s (push_bit (nat (e - e0)) m) + signed s' (push_bit (nat (e' - e0)) m')
      in if c = 0 then Fin (s \<and> s') 0 (- 1074) else round_dyadic (c < 0) \<bar>c\<bar> e0)"
  by (simp only: dadd_Fin Let_def signed_push)

lemma dsub_push:
  "dsub (Fin s m e) (Fin s' m' e') =
     (let e0 = min e e';
          c = signed s (push_bit (nat (e - e0)) m) + signed (\<not> s') (push_bit (nat (e' - e0)) m')
      in if c = 0 then Fin (s \<and> \<not> s') 0 (- 1074) else round_dyadic (c < 0) \<bar>c\<bar> e0)"
  by (simp only: dsub_def dneg_def double.case dadd_push)

lemma dlt_push:
  "dlt (Fin s m e) (Fin s' m' e') =
     (signed s (push_bit (nat (e - min e e')) m) < signed s' (push_bit (nat (e' - min e e')) m'))"
  unfolding dlt_def by (simp only: prod.case double.case Let_def signed_push)

lemma dle_push:
  "dle (Fin s m e) (Fin s' m' e') =
     (signed s (push_bit (nat (e - min e e')) m) \<le> signed s' (push_bit (nat (e' - min e e')) m'))"
  unfolding dle_def dlt_def deq_def
  by (simp only: prod.case double.case Let_def signed_push) auto

lemma dge_push:
  "dge (Fin s m e) (Fin s' m' e') =
     (signed s' (push_bit (nat (e' - min e' e)) m') \<le> signed s (push_bit (nat (e - min e' e)) m))"
  by (simp only: dge_def dle_push)



lemma rne_numeral:
  "rne n (numeral k) =
     (let t = n + push_bit (pred_numeral k) 1; q = drop_bit (numeral k) t
      in if odd q \<and> push_bit (numeral k) q = t then q - 1 else q)"
  by (simp add: rne_def numeral_eq_Suc)

lemma rne_one:
  "rne n 1 = (let t = n + 1; q = drop_bit 1 t in if odd q \<and> push_bit 1 q = t then q - 1 else q)"
  by (simp add: rne_def)

lemma push_bit_numeral_one:
  "push_bit (numeral l) (1::int) = push_bit (pred_numeral l) (numeral (Num.Bit0 Num.One))"
  by (simp add: numeral_eq_Suc push_bit_eq_mult)

lemma shift_one:
  "push_bit 1 (numeral k :: int) = numeral (Num.Bit0 k)"
  "drop_bit 1 (numeral (Num.Bit0 k) :: int) = numeral k"
  "drop_bit 1 (numeral (Num.Bit1 k) :: int) = numeral k"
  "push_bit 1 (1 :: int) = 2"
  "drop_bit 1 (1 :: int) = 0"
proof -
  show "push_bit 1 (numeral k :: int) = numeral (Num.Bit0 k)"
    using numeral_Bit0_eq_double[of k, where 'a = int] by (simp only: push_bit_eq_mult power_one_right mult.commute)
  show "drop_bit 1 (numeral (Num.Bit0 k) :: int) = numeral k"
    using drop_bit_Suc_bit0[of 0 k, where 'a = int] by (simp only: One_nat_def drop_bit_0 id_apply)
  show "drop_bit 1 (numeral (Num.Bit1 k) :: int) = numeral k"
    using drop_bit_Suc_bit1[of 0 k, where 'a = int] by (simp only: One_nat_def drop_bit_0 id_apply)
  show "push_bit 1 (1 :: int) = 2" by simp
  show "drop_bit 1 (1 :: int) = 0" by simp
qed

lemma sdm_numeral: "1 \<le> c \<Longrightarrow> sdm c (numeral x) = sdivmod c x"
  by (simp only: sdm_def sdivmod_correct)

lemma ddiv_small:
  assumes m: "2 ^ 52 \<le> m" "m < 2 ^ 53"
    and m': "2 ^ 52 \<le> c * 2 ^ j" "c * 2 ^ j < 2 ^ 53"
    and c: "1 \<le> c" and j: "j \<le> 55"
  shows "ddiv (Fin s m e) (Fin s' (c * 2 ^ j) e') =
     (case sdm c (push_bit (55 - j) m) of
        (quo, rem) \<Rightarrow>
          round_dyadic (s \<noteq> s') (2 * quo + (if rem = 0 then 0 else 1)) (e - e' - 56))"
proof -
  let ?A = "m * 2 ^ (55 - j)"
  have bm: "bitlen m = 53" using m by (rule bitlen_normal)
  have bm': "bitlen (c * 2 ^ j) = 53" using m' by (rule bitlen_normal)
  have k: "bitlen (c * 2 ^ j) + 55 - bitlen m = 55" by (simp add: bm bm')
  have ne: "c * 2 ^ j \<noteq> 0" using m'(1) by auto
  have "(2::int) ^ 55 = 2 ^ (55 - j) * 2 ^ j" using j by (simp flip: power_add)
  then have a: "m * 2 ^ 55 = ?A * 2 ^ j" by (simp only: mult.assoc)
  have c0: "0 \<le> c" using c by simp
  have d: "m * 2 ^ 55 div (c * 2 ^ j) = ?A div c"
  proof -
    have "m * 2 ^ 55 div (2 ^ j * c) = (m * 2 ^ 55 div 2 ^ j) div c" by (rule zdiv_zmult2_eq[OF c0])
    also have "m * 2 ^ 55 div 2 ^ j = ?A" unfolding a by simp
    finally show ?thesis by (simp only: mult.commute)
  qed
  have r: "m * 2 ^ 55 mod (c * 2 ^ j) = 0 \<longleftrightarrow> ?A mod c = 0"
  proof -
    have "m * 2 ^ 55 mod (2 ^ j * c) = 2 ^ j * (m * 2 ^ 55 div 2 ^ j mod c) + m * 2 ^ 55 mod 2 ^ j"
      by (rule zmod_zmult2_eq[OF c0])
    also have "m * 2 ^ 55 div 2 ^ j = ?A" unfolding a by simp
    also have "m * 2 ^ 55 mod 2 ^ j = 0" unfolding a by simp
    finally have "m * 2 ^ 55 mod (c * 2 ^ j) = 2 ^ j * (?A mod c)" by (simp only: mult.commute add_0_right)
    then show ?thesis by simp
  qed
  show ?thesis
    unfolding ddiv_def sdm_def push_bit_eq_mult
    by (simp only: prod.case double.case ne if_False Let_def k d r) simp
qed

lemma ddiv_1000:
  assumes "2 ^ 52 \<le> m" "m < 2 ^ 53"
  shows "ddiv (Fin s m e) (Fin s' 8796093022208000 e') =
     (case sdm 125 (push_bit 9 m) of
        (quo, rem) \<Rightarrow>
          round_dyadic (s \<noteq> s') (2 * quo + (if rem = 0 then 0 else 1)) (e - e' - 56))"
  using ddiv_small[OF assms, of 125 46 s e s' e'] by simp

lemma ddiv_6:
  assumes "2 ^ 52 \<le> m" "m < 2 ^ 53"
  shows "ddiv (Fin s m e) (Fin s' 6755399441055744 e') =
     (case sdm 3 (push_bit 4 m) of
        (quo, rem) \<Rightarrow>
          round_dyadic (s \<noteq> s') (2 * quo + (if rem = 0 then 0 else 1)) (e - e' - 56))"
  using ddiv_small[OF assms, of 3 51 s e s' e'] by simp

lemma ddiv_pow2:
  assumes m: "2 ^ 52 \<le> m" "m < 2 ^ 53" and e: "- 1074 \<le> e - e' - 52" "e - e' - 52 \<le> 971"
  shows "ddiv (Fin s m e) (Fin s' 4503599627370496 e') = Fin (s \<noteq> s') m (e - e' - 52)"
proof -
  have d: "is_double (Fin s m (e - e' - 52))" using m e by (simp add: is_double_def)
  have pos: "0 < m" using m(1) by simp
  have "ddiv (Fin s m e) (Fin s' (1 * 2 ^ 52) e') =
     (case sdm 1 (push_bit (55 - 52) m) of
        (quo, rem) \<Rightarrow>
          round_dyadic (s \<noteq> s') (2 * quo + (if rem = 0 then 0 else 1)) (e - e' - 56))"
    by (rule ddiv_small[OF m]) simp_all
  also have "\<dots> = round_dyadic (s \<noteq> s') (m * 2 ^ 4) (e - e' - 52 - int 4)"
    by (simp add: sdm_def push_bit_eq_mult mult.commute)
  also have "\<dots> = Fin (s \<noteq> s') m (e - e' - 52)" by (rule round_dyadic_exact[OF d pos])
  finally show ?thesis by simp
qed

section \<open>The integrator\<close>

text \<open>
  Claim C1. \<^verbatim>\<open>runge_kutta_4\<close> is the classical fixed-step RK4 scheme of the specification
  applied to the logistic derivative \<open>f(t, P) = r * P * (1 - P / K)\<close>: it returns
  \<open>P + (k1 + 2*k2 + 2*k3 + k4) / 6\<close> for the four slopes of the scheme. It is a function
  of its arguments alone.
\<close>

theorem rk4_refines_spec:
  "runge_kutta_4 t P h params = spec_step (spec_logistic (r params) (K params)) t P h"
  by (simp add: runge_kutta_4_def spec_step_def logistic_growth_def spec_logistic_def
      double_of_int_1 double_of_int_2 double_of_int_6 decimal_1_0 decimal_2_0 decimal_6_0)

section \<open>The simulation loop\<close>

lemma sim_loop_break:
  assumes "i \<le> steps"
    and "dge (runge_kutta_4 t P (dt params) params) (capacity_threshold params)"
  shows "sim_loop params steps i t P = Inr ([row_of params i t P], Some (dadd t (dt params)))"
  using assms by (subst sim_loop.simps) (simp add: Let_def capacity_threshold_def row_of_def)

lemma sim_loop_continue:
  assumes "i \<le> steps"
    and "\<not> dge (runge_kutta_4 t P (dt params) params) (capacity_threshold params)"
    and "i \<noteq> 2147483647"
  shows "sim_loop params steps i t P =
           (case sim_loop params steps (i + 1) (dadd t (dt params))
                   (runge_kutta_4 t P (dt params) params) of
              Inl e \<Rightarrow> Inl e
            | Inr (rows, c) \<Rightarrow> Inr (row_of params i t P # rows, c))"
  using assms
  by (subst sim_loop.simps)
     (simp add: Let_def capacity_threshold_def row_of_def split: sum.splits prod.splits)

lemma sim_loop_overflow:
  assumes "i \<le> steps"
    and "\<not> dge (runge_kutta_4 t P (dt params) params) (capacity_threshold params)"
    and "i = 2147483647"
  shows "sim_loop params steps i t P = Inl Int_overflow"
  using assms by (subst sim_loop.simps) (simp add: Let_def capacity_threshold_def)

lemma sim_loop_done:
  assumes "\<not> i \<le> steps"
  shows "sim_loop params steps i t P = Inr ([], None)"
  using assms by (subst sim_loop.simps) simp

lemma sim_loop_last:
  "sim_loop params steps i t P = Inr (rows, Some tc) \<Longrightarrow>
     rows \<noteq> [] \<and>
     dge (runge_kutta_4 (sample_t (snd (last rows))) (sample_P (snd (last rows)))
            (dt params) params) (capacity_threshold params) \<and>
     tc = dadd (sample_t (snd (last rows))) (dt params)"
proof (induction params steps i t P arbitrary: rows rule: sim_loop.induct)
  case (1 params steps i t P)
  show ?case
  proof (cases "i \<le> steps")
    case False
    with "1.prems" show ?thesis by (simp add: sim_loop_done)
  next
    case le: True
    show ?thesis
    proof (cases "dge (runge_kutta_4 t P (dt params) params) (capacity_threshold params)")
      case True
      with le "1.prems" show ?thesis
        by (auto simp: sim_loop_break row_of_def)
    next
      case False
      show ?thesis
      proof (cases "i = 2147483647")
        case True
        with le False "1.prems" show ?thesis by (simp add: sim_loop_overflow)
      next
        case ne: False
        from le False ne "1.prems" obtain rest where
          rest: "sim_loop params steps (i + 1) (dadd t (dt params))
                   (runge_kutta_4 t P (dt params) params) = Inr (rest, Some tc)"
          and rows: "rows = row_of params i t P # rest"
          by (auto simp: sim_loop_continue split: sum.splits prod.splits)
        have "rest \<noteq> [] \<and>
          dge (runge_kutta_4 (sample_t (snd (last rest))) (sample_P (snd (last rest)))
                 (dt params) params) (capacity_threshold params) \<and>
          tc = dadd (sample_t (snd (last rest))) (dt params)"
          using "1.IH"[OF le refl refl refl refl refl _ _ rest] False ne
          by (simp add: capacity_threshold_def)
        then show ?thesis using rows by simp
      qed
    qed
  qed
qed

text \<open>
  Claim C3. In any iteration whose post-step population reaches \<open>0.999 * K\<close>, the loop
  ends there: it yields the row of the pre-step state only and the capacity message carries
  the post-step time \<open>t + dt\<close>. Whenever a run ends with the capacity message, its last row
  is such a pre-threshold state, so the post-step pair is not a row.
\<close>

theorem capacity_reached_stops:
  "(i \<le> steps \<and>
    dge (runge_kutta_4 t P (dt params) params) (capacity_threshold params) \<longrightarrow>
      sim_loop params steps i t P = Inr ([row_of params i t P], Some (dadd t (dt params)))) \<and>
   (sim_loop params steps i t P = Inr (rows, Some tc) \<longrightarrow>
      rows \<noteq> [] \<and>
      dge (runge_kutta_4 (sample_t (snd (last rows))) (sample_P (snd (last rows)))
             (dt params) params) (capacity_threshold params) \<and>
      tc = dadd (sample_t (snd (last rows))) (dt params))"
  using sim_loop_break sim_loop_last by blast

lemma sim_loop_total:
  assumes "steps < 2147483647"
  shows "\<exists>rows c. sim_loop params steps i t P = Inr (rows, c) \<and>
           length rows \<le> nat (steps + 1 - i) \<and>
           (c = None \<longrightarrow> length rows = nat (steps + 1 - i))"
  using assms
proof (induction params steps i t P rule: sim_loop.induct)
  case (1 params steps i t P)
  show ?case
  proof (cases "i \<le> steps")
    case False
    then show ?thesis by (simp add: sim_loop_done)
  next
    case le: True
    show ?thesis
    proof (cases "dge (runge_kutta_4 t P (dt params) params) (capacity_threshold params)")
      case True
      with le show ?thesis by (simp add: sim_loop_break)
    next
      case False
      from le "1.prems" have ne: "i \<noteq> 2147483647" by simp
      from "1.IH"[OF le refl refl refl refl refl _ ne "1.prems"] False
      obtain rest c where
        rest: "sim_loop params steps (i + 1) (dadd t (dt params))
                 (runge_kutta_4 t P (dt params) params) = Inr (rest, c)"
        and len: "length rest \<le> nat (steps + 1 - (i + 1))"
        and full: "c = None \<longrightarrow> length rest = nat (steps + 1 - (i + 1))"
        by (auto simp: capacity_threshold_def)
      have "sim_loop params steps i t P = Inr (row_of params i t P # rest, c)"
        using le False ne rest by (simp add: sim_loop_continue)
      moreover have "nat (steps + 1 - i) = Suc (nat (steps + 1 - (i + 1)))" using le by simp
      ultimately show ?thesis using len full by simp
    qed
  qed
qed

section \<open>Termination and the number of rows\<close>

lemma time_le_eq: "time_le = (\<lambda>a b. dle (sample_t (snd a)) (sample_t (snd b)))"
  by (simp add: fun_eq_iff time_le_def)

lemma sim_loop_times:
  "is_double (dt params) \<Longrightarrow> positive (dt params) \<Longrightarrow> nonneg_time t \<Longrightarrow>
     sim_loop params steps i t P = Inr (rows, c) \<Longrightarrow>
         sorted_wrt time_le rows \<and>
         (\<forall>row \<in> set rows. nonneg_time (sample_t (snd row)) \<and> dle t (sample_t (snd row)))"
proof (induction params steps i t P arbitrary: rows rule: sim_loop.induct)
  case (1 params steps i t P)
  note h = "1.prems"(1,2) and t = "1.prems"(3) and res = "1.prems"(4)
  show ?case
  proof (cases "i \<le> steps")
    case False
    with res show ?thesis by (simp add: sim_loop_done)
  next
    case le: True
    show ?thesis
    proof (cases "dge (runge_kutta_4 t P (dt params) params) (capacity_threshold params)")
      case True
      with le res t show ?thesis
        by (auto simp: sim_loop_break row_of_def dle_nonneg_refl)
    next
      case False
      show ?thesis
      proof (cases "i = 2147483647")
        case True
        with le False res show ?thesis by (simp add: sim_loop_overflow)
      next
        case ne: False
        from le False ne res obtain rest where
          rest: "sim_loop params steps (i + 1) (dadd t (dt params))
                   (runge_kutta_4 t P (dt params) params) = Inr (rest, c)"
          and rows: "rows = row_of params i t P # rest"
          by (auto simp: sim_loop_continue split: sum.splits prod.splits)
        have t': "nonneg_time (dadd t (dt params))" and tt': "dle t (dadd t (dt params))"
          using nonneg_time_step[OF t h] by auto
        from "1.IH"[OF le refl refl refl refl refl _ ne h t' rest] False
        have srt: "sorted_wrt time_le rest"
          and all: "\<forall>row \<in> set rest. nonneg_time (sample_t (snd row)) \<and>
                      dle (dadd t (dt params)) (sample_t (snd row))"
          by (simp_all add: capacity_threshold_def)
        have all': "\<forall>row \<in> set rest. nonneg_time (sample_t (snd row)) \<and> dle t (sample_t (snd row))"
          using all dle_nonneg_trans[OF t t' _ tt'] by blast
        have hd: "sample_t (snd (row_of params i t P)) = t" by (simp add: row_of_def)
        show ?thesis
          unfolding rows using srt all' t
          by (simp add: hd time_le_eq dle_nonneg_refl)
      qed
    qed
  qed
qed

lemma int_of_double_floor:
  assumes "int_of_double (Fin False m e) = Some v"
  shows "v = \<lfloor>valof (Fin False m e)\<rfloor>"
proof (cases "0 \<le> e")
  case True
  with assms have v: "v = m * 2 ^ nat e" by (simp add: int_of_double_def signed_def Let_def split: if_splits)
  have "valof (Fin False m e) = real_of_int (m * 2 ^ nat e)"
    using True by (simp add: valof_def power_int_nonneg_exp)
  then show ?thesis using v by (simp only: floor_of_int)
next
  case False
  with assms have v: "v = m div 2 ^ nat (- e)"
    by (simp add: int_of_double_def signed_def Let_def split: if_splits)
  have "(2::real) powi e = inverse (2 powi (- e))" by (simp add: power_int_minus)
  also have "(2::real) powi (- e) = 2 ^ nat (- e)" using False by (simp add: power_int_nonneg_exp)
  finally have "valof (Fin False m e) = real_of_int m / real_of_int (2 ^ nat (- e))"
    by (simp add: valof_def divide_inverse)
  then show ?thesis using v by (simp only: floor_divide_of_int_eq)
qed

lemma int_of_double_nonneg:
  assumes "int_of_double (Fin False m e) = Some v" and "0 \<le> m"
  shows "0 \<le> v"
proof (cases "0 \<le> e")
  case True
  with assms(1) have "v = m * 2 ^ nat e"
    by (simp add: int_of_double_def signed_def Let_def split: if_splits)
  with assms(2) show ?thesis by simp
next
  case False
  with assms(1) have "v = m div 2 ^ nat (- e)"
    by (simp add: int_of_double_def signed_def Let_def split: if_splits)
  with assms(2) show ?thesis by (simp add: pos_imp_zdiv_nonneg_iff)
qed

lemma round_dyadic_sign:
  "round_dyadic s n q = Fin s' m e \<Longrightarrow> s' = s"
  "round_dyadic s n q = Inf s' \<Longrightarrow> s' = s"
  "round_dyadic s n q \<noteq> NaN"
proof -
  have alt: "0 < n \<Longrightarrow> round_dyadic s n q = Inf s \<or> (\<exists>m e. round_dyadic s n q = Fin s m e)"
    using round_dyadic_cases[of n s q] by blast
  have z: "\<not> 0 < n \<Longrightarrow> round_dyadic s n q = Fin s 0 (- 1074)"
    by (simp add: round_dyadic_def)
  show "round_dyadic s n q = Fin s' m e \<Longrightarrow> s' = s" using alt z by (cases "0 < n") auto
  show "round_dyadic s n q = Inf s' \<Longrightarrow> s' = s" using alt z by (cases "0 < n") auto
  show "round_dyadic s n q \<noteq> NaN" using alt z by (cases "0 < n") auto
qed

lemma ddiv_positive:
  assumes "x = Inf False \<or> (\<exists>m e. x = Fin False m e \<and> 0 < m)"
    and "y = Inf False \<or> (\<exists>m e. y = Fin False m e \<and> 0 < m)"
  shows "ddiv x y = NaN \<or> ddiv x y = Inf False \<or> (\<exists>m e. ddiv x y = Fin False m e \<and> 0 \<le> m)"
proof -
  have d: "is_double (ddiv x y)" by (rule is_double_ddiv)
  have sgn: "(\<forall>s m e. ddiv x y = Fin s m e \<longrightarrow> \<not> s) \<and> (\<forall>s. ddiv x y = Inf s \<longrightarrow> \<not> s)"
  proof -
    from assms consider "x = Inf False" | "y = Inf False" "x \<noteq> Inf False"
      | m e m' e' where "x = Fin False m e" "y = Fin False m' e'" "0 < m" "0 < m'"
      by blast
    then show ?thesis
    proof cases
      case 1
      with assms(2) show ?thesis by (auto simp: ddiv_def)
    next
      case 2
      with assms(1) show ?thesis by (auto simp: ddiv_def)
    next
      case 3
      then obtain n q where "ddiv x y = round_dyadic False n q"
        by (simp add: ddiv_def Let_def)
      then show ?thesis using round_dyadic_sign(1,2)[of False n q] by auto
    qed
  qed
  show ?thesis
  proof (cases "ddiv x y")
    case (Fin s m e)
    with d have "0 \<le> m" by (simp add: is_double_FinD(1))
    with sgn Fin show ?thesis by simp
  next
    case (Inf s)
    with sgn show ?thesis by simp
  qed simp
qed

lemma nonneg_time_zero: "nonneg_time (decimal 0 10)"
  by (simp add: decimal_0_0 nonneg_time_def)

text \<open>
  Claim C2, as amended. For valid parameters whose quotient \<open>t_max / dt\<close> converts to an
  \<^verbatim>\<open>int\<close> \<open>steps\<close> below \<^verbatim>\<open>INT_MAX\<close>, the run ends normally; \<open>steps\<close> is the floor of the
  computed quotient; at most \<open>steps + 1\<close> rows are written and printed, exactly
  \<open>steps + 1\<close> are written when the capacity threshold never fires; and the times of the
  rows never decrease.
\<close>

theorem run_simulation_halts:
  assumes valid: "valid_params params"
    and steps: "int_of_double (ddiv (t_max params) (dt params)) = Some steps"
    and range: "steps < 2147483647"
  shows "steps = \<lfloor>valof (ddiv (t_max params) (dt params))\<rfloor> \<and>
         (\<exists>out. run_simulation file_ok params = Inr out \<and>
           length (csv_rows out) \<le> nat steps + 1 \<and>
           length (console_rows out) \<le> nat steps + 1 \<and>
           (file_ok \<and> capacity_time out = None \<longrightarrow> length (csv_rows out) = nat steps + 1) \<and>
           times_nondecreasing (csv_rows out) \<and> times_nondecreasing (console_rows out))"
proof -
  from valid have dtd: "is_double (dt params)" and dtp: "positive (dt params)"
    by (simp_all add: valid_params_def)
  from sim_loop_total[OF range, of params 0 "decimal 0 10" "P0 params"]
  obtain rows c where loop: "sim_loop params steps 0 (decimal 0 10) (P0 params) = Inr (rows, c)"
    and len: "length rows \<le> nat (steps + 1)"
    and full: "c = None \<longrightarrow> length rows = nat (steps + 1)" by auto
  from sim_loop_times[OF dtd dtp nonneg_time_zero loop]
  have srt: "sorted_wrt time_le rows" by simp
  let ?out = "\<lparr>console_rows = map snd (filter (\<lambda>(i, s). i mod 10 = 0) rows),
               csv_rows = (if file_ok then map snd rows else []),
               capacity_time = c\<rparr>"
  have run: "run_simulation file_ok params = Inr ?out"
    by (simp add: run_simulation_def steps loop)
  have n: "nat (steps + 1) \<le> nat steps + 1" by simp
  have l1: "length (csv_rows ?out) \<le> nat steps + 1" using len n by simp
  have "length (filter (\<lambda>(i, s). i mod 10 = 0) rows) \<le> length rows" by (rule length_filter_le)
  moreover have "length (console_rows ?out) = length (filter (\<lambda>(i, s). i mod 10 = 0) rows)" by simp
  ultimately have l2: "length (console_rows ?out) \<le> nat steps + 1" using len n by linarith
  have st: "0 \<le> steps" and fl: "steps = \<lfloor>valof (ddiv (t_max params) (dt params))\<rfloor>"
  proof -
    from valid have "is_double (t_max params)" "positive (t_max params)"
      by (simp_all add: valid_params_def)
    from ddiv_positive[OF positive_cases[OF this(2,1)] positive_cases[OF dtp dtd]]
    consider "ddiv (t_max params) (dt params) = NaN" | "ddiv (t_max params) (dt params) = Inf False"
      | m e where "ddiv (t_max params) (dt params) = Fin False m e" "0 \<le> m" by blast
    then have both: "0 \<le> steps \<and> steps = \<lfloor>valof (ddiv (t_max params) (dt params))\<rfloor>"
    proof cases
      case 1
      with steps show ?thesis by (simp add: int_of_double_def)
    next
      case 2
      with steps show ?thesis by (simp add: int_of_double_def)
    next
      case 3
      with steps show ?thesis
        using int_of_double_nonneg[of m e steps] int_of_double_floor[of m e steps] by simp
    qed
    from both show "0 \<le> steps" by (rule conjunct1)
    from both show "steps = \<lfloor>valof (ddiv (t_max params) (dt params))\<rfloor>" by (rule conjunct2)
  qed
  have l3: "file_ok \<and> capacity_time ?out = None \<longrightarrow> length (csv_rows ?out) = nat steps + 1"
    using full st by (simp add: nat_add_distrib)
  have s1: "times_nondecreasing (csv_rows ?out)"
    using srt by (simp add: times_nondecreasing_def sorted_wrt_map time_le_eq)
  have "sorted_wrt time_le (filter (\<lambda>(i, s). i mod 10 = 0) rows)"
    using srt by (rule sorted_wrt_filter)
  then have s2: "times_nondecreasing (console_rows ?out)"
    by (simp add: times_nondecreasing_def sorted_wrt_map time_le_eq)
  from run l1 l2 l3 s1 s2 fl show ?thesis by blast
qed


lemma double_of_int_2_32: "double_of_int 4294967296 = Fin False (2 ^ 52) (- 20)"
  by (simp add: double_of_int_def round_dyadic_def Let_def)

text \<open>
  Claim C2 as stated fails: with \<open>t_max = 2^32\<close> and \<open>dt = 1\<close>, all parameters valid, the
  quotient does not fit an \<^verbatim>\<open>int\<close> and \<^verbatim>\<open>(int)(t_max / dt)\<close> is undefined.
\<close>

theorem int_conversion_counterexample:
  "valid_params huge_run \<and> run_simulation True huge_run = Inl Int_conversion_undefined"
proof -
  have "ddiv (Fin False (2 ^ 52) (- 20)) (Fin False (2 ^ 52) (- 52)) = Fin False (2 ^ 52) (- 20)"
    by (simp add: ddiv_def round_dyadic_def round_half_even_def Let_def)
  then have "run_simulation True huge_run = Inl Int_conversion_undefined"
    by (simp add: run_simulation_def huge_run_def double_of_int_1 double_of_int_2_32
        int_of_double_def signed_def)
  moreover have "valid_params huge_run"
    by (simp add: valid_params_def huge_run_def double_of_int_1 double_of_int_2_32
        is_double_def positive_def dgt_Fin valof_def double_of_int_0)
  ultimately show ?thesis by simp
qed

section \<open>Parameter validation\<close>

text \<open>
  Claim C7. When one of the five parameters entered is not positive, \<^verbatim>\<open>input_parameters\<close>
  fails, and \<^verbatim>\<open>main\<close> exits with status 1 without analysing or simulating: its result
  carries no analysis and no row.
\<close>

theorem invalid_parameter_exits:
  assumes "dle (r entered) (double_of_int 0) \<or> dle (K entered) (double_of_int 0) \<or>
           dle (P0 entered) (double_of_int 0) \<or> dle (t_max entered) (double_of_int 0) \<or>
           dle (dt entered) (double_of_int 0)"
  shows "input_parameters entered = Inl Invalid_parameter \<and>
         main lg file_ok 1 scenario entered = Exited 1"
  using assms by (simp add: input_parameters_def main_def)

end
